theory Spec2Isabelle
  imports Main "HOL-Library.Char_ord" "HOL-Library.List_Lexorder"
begin

section \<open>Go strings and the library functions the printer calls\<close>

text \<open>
  A Go string is a sequence of bytes, modelled as \<^typ>\<open>string\<close> (a list of 8-bit
  characters); \<open>len\<close> is \<^const>\<open>length\<close>, slicing \<open>s[i:]\<close> is \<^const>\<open>drop\<close>, and
  comparison of strings is bytewise lexicographic (the order of
  \<open>List_Lexorder\<close> over \<open>Char_ord\<close>).  A rune is a code point, an integer.

  The functions of packages \<open>strings\<close>, \<open>unicode/utf8\<close>, \<open>sort\<close> and \<open>bytes\<close> are not
  part of the repository; they are modelled from their documentation.  The
  tables behind \<open>unicode.IsLetter\<close> and \<open>unicode.IsDigit\<close> are taken as parameters.
\<close>

type_synonym rune = int

definition byte :: "char \<Rightarrow> int" where
  "byte c = of_char c"

definition RuneError :: rune where
  "RuneError = 0xFFFD"

text \<open>
  The first byte of a multi-byte encoding fixes the size of the encoding and
  the range accepted for the second byte (\<open>first\<close> and \<open>acceptRanges\<close> of
  package \<open>utf8\<close>).  Every other first byte at or above \<open>0x80\<close> is invalid.
\<close>

definition acceptRange :: "int \<Rightarrow> (nat \<times> int \<times> int) option" where
  "acceptRange s0 =
     (if 0xC2 \<le> s0 \<and> s0 \<le> 0xDF then Some (2, 0x80, 0xBF)
      else if s0 = 0xE0 then Some (3, 0xA0, 0xBF)
      else if 0xE1 \<le> s0 \<and> s0 \<le> 0xEC then Some (3, 0x80, 0xBF)
      else if s0 = 0xED then Some (3, 0x80, 0x9F)
      else if 0xEE \<le> s0 \<and> s0 \<le> 0xEF then Some (3, 0x80, 0xBF)
      else if s0 = 0xF0 then Some (4, 0x90, 0xBF)
      else if 0xF1 \<le> s0 \<and> s0 \<le> 0xF3 then Some (4, 0x80, 0xBF)
      else if s0 = 0xF4 then Some (4, 0x80, 0x8F)
      else None)"

text \<open>
  \<open>utf8.DecodeRuneInString\<close>: the first rune of the string and its width in
  bytes; \<open>(RuneError, 0)\<close> on the empty string and \<open>(RuneError, 1)\<close> on an invalid
  encoding.  The reads \<open>s ! 1\<close>, \<open>s ! 2\<close>, \<open>s ! 3\<close> are guarded by the length test, as
  in the library.
\<close>

definition DecodeRuneInString :: "string \<Rightarrow> rune \<times> nat" where
  "DecodeRuneInString s =
     (if length s < 1 then (RuneError, 0)
      else let s0 = byte (s ! 0) in
        if s0 < 0x80 then (s0, 1)
        else case acceptRange s0 of
          None \<Rightarrow> (RuneError, 1)
        | Some (sz, lo, hi) \<Rightarrow>
            if length s < sz then (RuneError, 1)
            else let s1 = byte (s ! 1) in
              if s1 < lo \<or> hi < s1 then (RuneError, 1)
              else if sz \<le> 2 then ((s0 mod 32) * 64 + s1 mod 64, 2)
              else let s2 = byte (s ! 2) in
                if s2 < 0x80 \<or> 0xBF < s2 then (RuneError, 1)
                else if sz \<le> 3
                  then ((s0 mod 16) * 4096 + (s1 mod 64) * 64 + s2 mod 64, 3)
                else let s3 = byte (s ! 3) in
                  if s3 < 0x80 \<or> 0xBF < s3 then (RuneError, 1)
                  else ((s0 mod 8) * 262144 + (s1 mod 64) * 4096
                          + (s2 mod 64) * 64 + s3 mod 64, 4))"

text \<open>
  \<open>utf8.AppendRune\<close> to the empty string: the UTF-8 encoding of a rune; a rune
  out of range or a surrogate half is encoded as \<open>RuneError\<close>.
\<close>

definition EncodeRune :: "rune \<Rightarrow> string" where
  "EncodeRune r =
     (if 0 \<le> r \<and> r \<le> 0x7F then [char_of r]
      else if 0 \<le> r \<and> r \<le> 0x7FF then [char_of (0xC0 + r div 64), char_of (0x80 + r mod 64)]
      else if r < 0 \<or> 0x10FFFF < r \<or> (0xD800 \<le> r \<and> r \<le> 0xDFFF)
        then [char_of (0xEF :: int), char_of (0xBF :: int), char_of (0xBD :: int)]
      else if r \<le> 0xFFFF
        then [char_of (0xE0 + r div 4096), char_of (0x80 + (r div 64) mod 64),
              char_of (0x80 + r mod 64)]
      else [char_of (0xF0 + r div 262144), char_of (0x80 + (r div 4096) mod 64),
            char_of (0x80 + (r div 64) mod 64), char_of (0x80 + r mod 64)])"

text \<open>
  \<open>strings.Map\<close>: every rune of the string is replaced by its image under the
  mapping; a negative image drops the rune.  The string is non-empty in the
  second equation, so the decoded width is at least one and
  \<open>drop (width - 1) cs\<close> is \<open>s[width:]\<close>.
\<close>

fun strings_Map :: "(rune \<Rightarrow> rune) \<Rightarrow> string \<Rightarrow> string" where
  "strings_Map mapping [] = []"
| "strings_Map mapping (c # cs) =
     (let d = DecodeRuneInString (c # cs); r = mapping (fst d)
      in (if r < 0 then [] else EncodeRune r) @ strings_Map mapping (drop (snd d - 1) cs))"

text \<open>
  \<open>strings.LastIndex\<close>: the index of the last instance of \<open>substr\<close> in \<open>s\<close>, or
  \<open>-1\<close> when there is none.
\<close>

fun LastIndex :: "string \<Rightarrow> string \<Rightarrow> int" where
  "LastIndex [] substr = (if substr = [] then 0 else - 1)"
| "LastIndex (c # s) substr =
     (let i = LastIndex s substr
      in if i \<noteq> - 1 then i + 1
         else if take (length substr) (c # s) = substr then 0
         else - 1)"

text \<open>The tables of package \<open>unicode\<close>, by code point.\<close>

record unicode =
  IsLetter :: "rune \<Rightarrow> bool"
  IsDigit :: "rune \<Rightarrow> bool"

text \<open>The two tables restricted to ASCII, for evaluating examples.\<close>

definition unicode_ascii :: unicode where
  "unicode_ascii =
     \<lparr>IsLetter = (\<lambda>r. (0x41 \<le> r \<and> r \<le> 0x5A) \<or> (0x61 \<le> r \<and> r \<le> 0x7A)),
      IsDigit = (\<lambda>r. 0x30 \<le> r \<and> r \<le> 0x39)\<rparr>"

section \<open>The printer\<close>

record printer =
  pkgName :: string
  w :: string
  indent :: string
  "imports" :: "string \<rightharpoonup> string"
  hasContent :: bool

definition newPrinter :: "string \<Rightarrow> printer" where
  "newPrinter pkg = \<lparr>pkgName = pkg, w = [], indent = [], imports = Map.empty, hasContent = False\<rparr>"

definition badToUnderscore :: "unicode \<Rightarrow> rune \<Rightarrow> rune" where
  "badToUnderscore U r =
     (if IsLetter U r \<or> IsDigit U r \<or> r = byte (CHR ''_'') then r else byte (CHR ''_''))"

definition unvendor :: "string \<Rightarrow> string" where
  "unvendor pa =
     (let lastvendor = LastIndex pa ''/vendor/''
      in if lastvendor \<noteq> - 1 then drop (nat (lastvendor + 8)) pa else pa)"

definition makeFullpath :: "unicode \<Rightarrow> string \<Rightarrow> string" where
  "makeFullpath U pa = strings_Map (badToUnderscore U) pa"

text \<open>\<open>makeAlias\<close> is called by no method of the printer and is left out.\<close>

text \<open>
  A panic ends the run; it carries its message.
\<close>

datatype panic = Panic string

text \<open>
  \<open>NewImport\<close> returns a closure over the printer and over its own two
  variables \<open>name\<close> and \<open>path\<close>; it does not touch the printer.  The closure is
  the record of its two captured variables.  \<open>Import\<close> is the body of the
  closure: a call assigns the unvendored path to the captured \<open>path\<close> and
  updates the map of the printer, so it returns the alias, the closure and the
  printer, or panics.
\<close>

record closure =
  name :: string
  path :: string

definition NewImport :: "string \<Rightarrow> string \<Rightarrow> closure" where
  "NewImport n pa = \<lparr>name = n, path = pa\<rparr>"

definition Import :: "unicode \<Rightarrow> printer \<Rightarrow> closure \<Rightarrow> panic + (string \<times> closure \<times> printer)" where
  "Import U p c =
     (let pa = unvendor (path c);
          c' = c\<lparr>path := pa\<rparr>;
          fullpath = makeFullpath U pa;
          alias = name c
      in case imports p alias of
           None \<Rightarrow> Inr (alias, c', p\<lparr>imports := (imports p)(alias \<mapsto> pa)\<rparr>)
         | Some pa1 \<Rightarrow>
             if pa1 = pa then Inr (alias, c', p)
             else (case imports p fullpath of
                     Some path2 \<Rightarrow>
                       if path2 \<noteq> pa
                       then Inl (Panic (''non unique fullpath: '' @ path2 @ '' != '' @ pa))
                       else Inr (fullpath, c', p\<lparr>imports := (imports p)(fullpath \<mapsto> pa)\<rparr>)
                   | None \<Rightarrow> Inr (fullpath, c', p\<lparr>imports := (imports p)(fullpath \<mapsto> pa)\<rparr>)))"

text \<open>
  \<open>P\<close> formats with \<open>fmt.Fprintf\<close> into the buffer, which cannot fail; the
  formatter is a parameter (\<open>Sprintf format a\<close> is the formatted text).
\<close>

definition P :: "(string \<Rightarrow> 'a list \<Rightarrow> string) \<Rightarrow> printer \<Rightarrow> string \<Rightarrow> 'a list \<Rightarrow> printer" where
  "P Sprintf p format a =
     (let p1 = p\<lparr>hasContent := True\<rparr>
      in p1\<lparr>w := w p1 @ Sprintf (indent p1 @ format @ ''\<newline>'') a\<rparr>)"

definition In :: "printer \<Rightarrow> printer" where
  "In p = p\<lparr>indent := indent p @ [CHR 0x09]\<rparr>"

definition Out :: "printer \<Rightarrow> panic + printer" where
  "Out p =
     (if length (indent p) > 0 then Inr (p\<lparr>indent := drop 1 (indent p)\<rparr>)
      else Inl (Panic ''bug in code generator: unindenting more than has been indented''))"

definition HasContent :: "printer \<Rightarrow> bool" where
  "HasContent p = hasContent p"

text \<open>
  A run of the generator against one printer: the calls it makes, in order.
  The run stops at the first panic; otherwise it returns, for every call of an
  import closure, the closure and the alias the call returned, and the printer.
\<close>

datatype 'a call = CallImport closure | CallP string "'a list" | CallIn | CallOut

fun run :: "unicode \<Rightarrow> (string \<Rightarrow> 'a list \<Rightarrow> string) \<Rightarrow> printer \<Rightarrow> 'a call list
    \<Rightarrow> panic + ((closure \<times> string) list \<times> printer)" where
  "run U Sprintf p [] = Inr ([], p)"
| "run U Sprintf p (CallImport c # cs) =
     (case Import U p c of
        Inl e \<Rightarrow> Inl e
      | Inr (k, c', p') \<Rightarrow>
          (case run U Sprintf p' cs of
             Inl e \<Rightarrow> Inl e
           | Inr (tr, p'') \<Rightarrow> Inr ((c, k) # tr, p'')))"
| "run U Sprintf p (CallP format a # cs) = run U Sprintf (P Sprintf p format a) cs"
| "run U Sprintf p (CallIn # cs) = run U Sprintf (In p) cs"
| "run U Sprintf p (CallOut # cs) =
     (case Out p of Inl e \<Rightarrow> Inl e | Inr p' \<Rightarrow> run U Sprintf p' cs)"

text \<open>\<open>fmt.Sprintf\<close> on a format without verbs and without operands, for evaluating examples.\<close>

definition Sprintf_plain :: "string \<Rightarrow> unit list \<Rightarrow> string" where
  "Sprintf_plain format a = format"

section \<open>Writing the file\<close>

text \<open>
  An \<open>io.Writer\<close> is its \<open>Write\<close> method over the state of the sink: a call
  returns the number of bytes it took, an error or none, and the next state.
  The count is a natural number (the contract of \<open>io.Writer\<close> has \<open>0 \<le> n\<close>); the
  sum of two counts stays far below the range of \<open>int64\<close>, each being at most
  the length of a buffer in memory.
\<close>

datatype error = ErrShortWrite | WriteError string

type_synonym 's Writer = "'s \<Rightarrow> string \<Rightarrow> nat \<times> error option \<times> 's"

text \<open>
  \<open>(*bytes.Buffer).WriteTo\<close>: an empty buffer writes nothing; otherwise the
  unread bytes go to the writer in one \<open>Write\<close>.  A count above the length
  panics, an error is returned with the count, a short count without an error
  is \<open>io.ErrShortWrite\<close>, and the bytes taken leave the buffer.  The result is
  the count, the error, the bytes left in the buffer and the sink.
\<close>

definition Buffer_WriteTo :: "'s Writer \<Rightarrow> string \<Rightarrow> 's \<Rightarrow> panic + (nat \<times> error option \<times> string \<times> 's)" where
  "Buffer_WriteTo Write b s =
     (if length b > 0 then
        (case Write s b of (m, e, s') \<Rightarrow>
           if m > length b then Inl (Panic ''bytes.Buffer.WriteTo: invalid Write count'')
           else (case e of
                   Some err \<Rightarrow> Inr (m, Some err, drop m b, s')
                 | None \<Rightarrow>
                     if m \<noteq> length b then Inr (m, Some ErrShortWrite, drop m b, s')
                     else Inr (m, None, [], s')))
      else Inr (0, None, [], s))"

text \<open>
  \<open>for qual, path := range p.imports\<close> visits every entry of the map once, in
  an order the language leaves open.  The order is a parameter: the list \<open>ks\<close>
  of the keys as the loop meets them.
\<close>

definition is_range :: "('k \<rightharpoonup> 'v) \<Rightarrow> 'k list \<Rightarrow> bool" where
  "is_range m ks = (distinct ks \<and> set ks = dom m)"

definition range_map :: "('k \<rightharpoonup> 'v) \<Rightarrow> 'k list \<Rightarrow> ('k \<times> 'v) list" where
  "range_map m ks = concat (map (\<lambda>k. case m k of None \<Rightarrow> [] | Some v \<Rightarrow> [(k, v)]) ks)"

text \<open>The loop over the imports: it fills \<open>pathToQual\<close> and appends to \<open>paths\<close>.\<close>

fun collect :: "(string \<times> string) list \<Rightarrow> (string \<rightharpoonup> string) \<times> string list
    \<Rightarrow> (string \<rightharpoonup> string) \<times> string list" where
  "collect [] (pathToQual, paths) = (pathToQual, paths)"
| "collect ((qual, pa) # kvs) (pathToQual, paths) =
     collect kvs (pathToQual(pa \<mapsto> qual), paths @ [pa])"

text \<open>Reading a map of strings at a missing key gives the empty string.\<close>

definition index_map :: "(string \<rightharpoonup> string) \<Rightarrow> string \<Rightarrow> string" where
  "index_map m k = (case m k of None \<Rightarrow> [] | Some v \<Rightarrow> v)"

definition import_line :: "string \<Rightarrow> string \<Rightarrow> string" where
  "import_line qual pa =
     (if qual = pa then [CHR 0x09, CHR 0x22] @ pa @ [CHR 0x22, CHR 0x0A]
      else [CHR 0x09] @ qual @ [CHR '' '', CHR 0x22] @ pa @ [CHR 0x22, CHR 0x0A])"

definition import_lines :: "(string \<rightharpoonup> string) \<Rightarrow> string list \<Rightarrow> string list" where
  "import_lines m ks =
     (case collect (range_map m ks) (Map.empty, []) of
        (pathToQual, paths) \<Rightarrow> map (\<lambda>pa. import_line (index_map pathToQual pa) pa) (sort paths))"

definition top_buf :: "string list \<Rightarrow> printer \<Rightarrow> string" where
  "top_buf ks p =
     ''// Code generated by goderive DO NOT EDIT.\<newline>'' @ ''\<newline>''
     @ (''package '' @ pkgName p @ ''\<newline>'')
     @ (if imports p \<noteq> Map.empty
        then ''\<newline>'' @ ''import (\<newline>'' @ concat (import_lines (imports p) ks) @ '')\<newline>''
        else [])"

definition WriteTo :: "'s Writer \<Rightarrow> string list \<Rightarrow> printer \<Rightarrow> 's
    \<Rightarrow> panic + (nat \<times> error option \<times> printer \<times> 's)" where
  "WriteTo Write ks p file =
     (case Buffer_WriteTo Write (top_buf ks p) file of
        Inl e \<Rightarrow> Inl e
      | Inr (n1, err, _, file1) \<Rightarrow>
          (case err of
             Some e \<Rightarrow> Inr (n1, Some e, p, file1)
           | None \<Rightarrow>
               (case Buffer_WriteTo Write (w p) file1 of
                  Inl e \<Rightarrow> Inl e
                | Inr (n2, err2, w', file2) \<Rightarrow> Inr (n1 + n2, err2, p\<lparr>w := w'\<rparr>, file2))))"

text \<open>
  A writer that keeps its promise: it takes at most the bytes it is given, and
  the sink holds what it held and the bytes taken.  \<open>written\<close> reads the sink.
\<close>

definition honest :: "'s Writer \<Rightarrow> ('s \<Rightarrow> string) \<Rightarrow> bool" where
  "honest Write written =
     (\<forall>s b. case Write s b of (m, e, s') \<Rightarrow> m \<le> length b \<and> written s' = written s @ take m b)"

text \<open>Two sinks for examples: a buffer that takes everything, and a closed file.\<close>

definition Write_buffer :: "string Writer" where
  "Write_buffer s b = (length b, None, s @ b)"

definition Write_closed :: "string Writer" where
  "Write_closed s b = (0, Some (WriteError ''file already closed''), s)"

section \<open>Facts about the library functions\<close>

lemma byte_nonneg: "0 \<le> byte c"
proof -
  have "byte c = int (of_char c)" by (simp add: byte_def of_nat_of_char)
  then show ?thesis by simp
qed

lemma DecodeRuneInString_nonneg: "0 \<le> fst (DecodeRuneInString s)"
  by (auto simp: DecodeRuneInString_def RuneError_def Let_def byte_nonneg split: option.splits)

lemma EncodeRune_not_Nil: "EncodeRune r \<noteq> []"
  by (simp add: EncodeRune_def)

lemma badToUnderscore_nonneg: "0 \<le> r \<Longrightarrow> 0 \<le> badToUnderscore U r"
  by (simp add: badToUnderscore_def byte_nonneg)

lemma makeFullpath_Nil_iff: "makeFullpath U pa = [] \<longleftrightarrow> pa = []"
proof (cases pa)
  case Nil
  then show ?thesis by (simp add: makeFullpath_def)
next
  case (Cons c cs)
  have "0 \<le> badToUnderscore U (fst (DecodeRuneInString (c # cs)))"
    by (rule badToUnderscore_nonneg [OF DecodeRuneInString_nonneg])
  then show ?thesis
    using Cons by (simp add: makeFullpath_def Let_def EncodeRune_not_Nil)
qed

lemma LastIndex_lower: "- 1 \<le> LastIndex s substr"
  by (induction s) (auto simp: Let_def)

lemma LastIndex_none:
  "substr \<noteq> [] \<Longrightarrow> LastIndex s substr = - 1 \<longleftrightarrow> (\<forall>j. take (length substr) (drop j s) \<noteq> substr)"
proof (induction s)
  case Nil
  then show ?case by auto
next
  case (Cons c s)
  show ?case
  proof (cases "LastIndex s substr = - 1")
    case True
    with Cons have none: "\<And>j. take (length substr) (drop j s) \<noteq> substr" by simp
    show ?thesis
    proof (cases "take (length substr) (c # s) = substr")
      case p: True
      then have "\<exists>j. take (length substr) (drop j (c # s)) = substr"
        by (intro exI [of _ 0]) simp
      with True p show ?thesis by (simp add: Let_def)
    next
      case np: False
      have "take (length substr) (drop j (c # s)) \<noteq> substr" for j
        using np none [of "j - 1"] by (cases j) simp_all
      with True np show ?thesis by (simp add: Let_def)
    qed
  next
    case False
    with Cons obtain j where "take (length substr) (drop j s) = substr" by auto
    then have "take (length substr) (drop (Suc j) (c # s)) = substr" by simp
    then have ex: "\<exists>j. take (length substr) (drop j (c # s)) = substr" by blast
    have "LastIndex s substr + 1 \<noteq> - 1" using LastIndex_lower [of s substr] by simp
    with ex False show ?thesis by (simp add: Let_def)
  qed
qed

lemma LastIndex_last:
  "substr \<noteq> [] \<Longrightarrow> LastIndex s substr \<noteq> - 1 \<Longrightarrow> nat (LastIndex s substr) < j
    \<Longrightarrow> take (length substr) (drop j s) \<noteq> substr"
proof (induction s arbitrary: j)
  case Nil
  then show ?case by simp
next
  case (Cons c s)
  obtain j' where j: "j = Suc j'" using Cons.prems(3) by (cases j) auto
  show ?case
  proof (cases "LastIndex s substr = - 1")
    case True
    with Cons.prems(1) have "take (length substr) (drop j' s) \<noteq> substr"
      by (simp add: LastIndex_none)
    with j show ?thesis by simp
  next
    case False
    with Cons.prems(3) j have "nat (LastIndex s substr) < j'"
      using LastIndex_lower [of s substr] by (simp add: Let_def)
    with Cons.IH [OF Cons.prems(1) False] j show ?thesis by simp
  qed
qed

lemma LastIndex_at:
  "substr \<noteq> [] \<Longrightarrow> LastIndex s substr \<noteq> - 1
    \<Longrightarrow> take (length substr) (drop (nat (LastIndex s substr)) s) = substr"
proof (induction s)
  case Nil
  then show ?case by simp
next
  case (Cons c s)
  show ?case
  proof (cases "LastIndex s substr = - 1")
    case True
    with Cons.prems show ?thesis by (simp add: Let_def split: if_splits)
  next
    case False
    have "0 \<le> LastIndex s substr" using False LastIndex_lower [of s substr] by simp
    then have "nat (LastIndex s substr + 1) = Suc (nat (LastIndex s substr))" by simp
    with Cons.IH [OF Cons.prems(1) False] False show ?thesis by (simp add: Let_def)
  qed
qed

lemma unvendor_no_marker: "LastIndex (unvendor pa) ''/vendor/'' = - 1"
proof (cases "LastIndex pa ''/vendor/'' = - 1")
  case True
  then show ?thesis by (simp add: unvendor_def)
next
  case False
  have ge: "0 \<le> LastIndex pa ''/vendor/''" using False LastIndex_lower [of pa "''/vendor/''"] by simp
  have "take (length ''/vendor/'') (drop j (drop (nat (LastIndex pa ''/vendor/'' + 8)) pa)) \<noteq> ''/vendor/''" for j
  proof -
    have "nat (LastIndex pa ''/vendor/'') < nat (LastIndex pa ''/vendor/'' + 8) + j" using ge by simp
    from LastIndex_last [OF _ False this] show ?thesis by (simp add: add.commute)
  qed
  then have "LastIndex (drop (nat (LastIndex pa ''/vendor/'' + 8)) pa) ''/vendor/'' = - 1"
    by (subst LastIndex_none) simp_all
  with False show ?thesis by (simp add: unvendor_def)
qed

lemma unvendor_idem: "unvendor (unvendor pa) = unvendor pa"
  using unvendor_no_marker [of pa] by (simp add: unvendor_def [of "unvendor pa"])

lemma unvendor_strip:
  assumes "LastIndex (pre @ ''/vendor/'' @ rest) ''/vendor/'' = int (length pre)"
  shows "unvendor (pre @ ''/vendor/'' @ rest) = rest"
  using assms by (simp add: unvendor_def nat_add_distrib)

section \<open>The registry only grows\<close>

lemma Import_Inr_iff:
  "Import U p c = Inr (k, c', p') \<Longrightarrow>
     c' = c\<lparr>path := unvendor (path c)\<rparr> \<and> imports p' k = Some (unvendor (path c))
     \<and> imports p \<subseteq>\<^sub>m imports p'
     \<and> pkgName p' = pkgName p \<and> w p' = w p \<and> indent p' = indent p \<and> hasContent p' = hasContent p"
  by (auto simp: Import_def Let_def map_le_def split: option.splits if_splits)

lemma Import_result:
  "Import U p c = Inr (k, c', p') \<Longrightarrow>
     k = name c
     \<or> (\<exists>pa1. imports p (name c) = Some pa1 \<and> pa1 \<noteq> unvendor (path c))
        \<and> k = makeFullpath U (unvendor (path c)) \<and> k \<noteq> name c"
  by (auto simp: Import_def Let_def split: option.splits if_splits)

lemma Import_again:
  assumes "Import U p c = Inr (k, c', p1)"
    and "imports p1 \<subseteq>\<^sub>m imports p2"
    and "name d = name c" and "unvendor (path d) = unvendor (path c)"
  shows "Import U p2 d = Inr (k, d\<lparr>path := unvendor (path d)\<rparr>, p2)"
proof -
  from Import_Inr_iff [OF assms(1)] have reg: "imports p1 k = Some (unvendor (path c))" by simp
  with assms(2) have k2: "imports p2 k = Some (unvendor (path c))"
    by (auto simp: map_le_def dom_def)
  from Import_result [OF assms(1)] show ?thesis
  proof (elim disjE conjE exE)
    assume "k = name c"
    with k2 assms(3,4) show ?thesis by (simp add: Import_def Let_def)
  next
    fix pa1
    assume a: "imports p (name c) = Some pa1" "pa1 \<noteq> unvendor (path c)"
      and k: "k = makeFullpath U (unvendor (path c))" "k \<noteq> name c"
    from Import_Inr_iff [OF assms(1)] a(1) have "imports p1 (name c) = Some pa1"
      by (auto simp: map_le_def dom_def)
    with assms(2) have "imports p2 (name c) = Some pa1" by (auto simp: map_le_def dom_def)
    moreover have "(imports p2)(k \<mapsto> unvendor (path c)) = imports p2"
      using k2 by (simp add: map_upd_triv)
    ultimately show ?thesis using a(2) k k2 assms(3,4) by (simp add: Import_def Let_def)
  qed
qed

lemma P_imports: "imports (P Sprintf p format a) = imports p"
  by (simp add: P_def Let_def)

lemma In_imports: "imports (In p) = imports p"
  by (simp add: In_def)

lemma Out_imports: "Out p = Inr p' \<Longrightarrow> imports p' = imports p"
  by (auto simp: Out_def split: if_splits)

lemma run_registry:
  "run U Sprintf p cs = Inr (tr, p') \<Longrightarrow>
     imports p \<subseteq>\<^sub>m imports p' \<and> (\<forall>(c, k) \<in> set tr. imports p' k = Some (unvendor (path c)))"
proof (induction U Sprintf p cs arbitrary: tr p' rule: run.induct)
  case (1 U Sprintf p)
  then show ?case by simp
next
  case (2 U Sprintf p c cs)
  from "2.prems" obtain k c' p1 tr1 where
    i: "Import U p c = Inr (k, c', p1)" and r: "run U Sprintf p1 cs = Inr (tr1, p')"
    and tr: "tr = (c, k) # tr1"
    by (auto split: sum.splits prod.splits)
  from "2.IH" [OF i refl refl r]
  have le: "imports p1 \<subseteq>\<^sub>m imports p'"
    and reg: "\<forall>(c, k) \<in> set tr1. imports p' k = Some (unvendor (path c))" by simp_all
  from Import_Inr_iff [OF i] have "imports p \<subseteq>\<^sub>m imports p1" "imports p1 k = Some (unvendor (path c))"
    by simp_all
  with le have "imports p \<subseteq>\<^sub>m imports p'" "imports p' k = Some (unvendor (path c))"
    by (auto simp: map_le_def dom_def)
  with reg tr show ?case by simp
next
  case (3 U Sprintf p format a cs)
  then show ?case by (simp add: P_imports)
next
  case (4 U Sprintf p cs)
  then show ?case by (simp add: In_imports)
next
  case (5 U Sprintf p cs)
  from "5.prems" obtain p1 where o: "Out p = Inr p1" and r: "run U Sprintf p1 cs = Inr (tr, p')"
    by (auto split: sum.splits)
  from "5.IH" [OF o r] Out_imports [OF o] show ?case by simp
qed

text \<open>Two evaluations used by the examples.\<close>

lemma makeFullpath_example:
  "makeFullpath unicode_ascii ''example.com/pkg/fmt'' = ''example_com_pkg_fmt''"
  by code_simp

lemma unvendor_example:
  "unvendor ''github.com/x/vendor/example.com/pkg/fmt'' = ''example.com/pkg/fmt''"
  by code_simp

lemma makeFullpath_b: "makeFullpath unicode_ascii ''b'' = ''b''"
  by code_simp

lemma makeFullpath_a_b: "makeFullpath unicode_ascii ''a/b'' = ''a_b''"
  by code_simp

lemma unvendor_plain: "unvendor ''p'' = ''p'' \<and> unvendor ''a'' = ''a'' \<and> unvendor ''b'' = ''b''
    \<and> unvendor ''fmt'' = ''fmt'' \<and> unvendor ''a/b'' = ''a/b'' \<and> unvendor ''example.com/pkg/fmt'' = ''example.com/pkg/fmt''"
  by code_simp

section \<open>Facts about writing\<close>

lemma top_buf_not_Nil: "top_buf ks p \<noteq> []"
  by (simp add: top_buf_def)

lemma honest_Write:
  "honest Write written \<Longrightarrow> Write s b = (m, e, s') \<Longrightarrow> m \<le> length b \<and> written s' = written s @ take m b"
  unfolding honest_def by (metis (mono_tags, lifting) case_prod_conv)

lemma Buffer_WriteTo_honest:
  assumes "honest Write written"
  shows "\<exists>n err b' s'. Buffer_WriteTo Write b s = Inr (n, err, b', s')
     \<and> n \<le> length b \<and> written s' = written s @ take n b \<and> b' = drop n b
     \<and> (err = None \<longleftrightarrow> (b = [] \<or> (fst (snd (Write s b)) = None \<and> fst (Write s b) = length b)))
     \<and> (b \<noteq> [] \<longrightarrow> n = fst (Write s b) \<and> s' = snd (snd (Write s b))
           \<and> (\<forall>e. fst (snd (Write s b)) = Some e \<longrightarrow> err = Some e))"
proof (cases "b = []")
  case True
  then show ?thesis by (simp add: Buffer_WriteTo_def)
next
  case False
  obtain m e s' where wr: "Write s b = (m, e, s')" by (cases "Write s b") auto
  from honest_Write [OF assms wr] have m: "m \<le> length b" and wn: "written s' = written s @ take m b"
    by simp_all
  with False wr show ?thesis
    by (cases e) (auto simp: Buffer_WriteTo_def)
qed

lemma Buffer_WriteTo_success:
  "Buffer_WriteTo Write b s = Inr (n, None, b', s') \<Longrightarrow> b' = [] \<and> n = length b"
  by (auto simp: Buffer_WriteTo_def split: if_splits prod.splits option.splits)

lemma WriteTo_empty_content:
  "WriteTo Write ks (p\<lparr>w := []\<rparr>) s =
     (case Buffer_WriteTo Write (top_buf ks p) s of
        Inl e \<Rightarrow> Inl e
      | Inr (n, err, b, s') \<Rightarrow> Inr (n, err, p\<lparr>w := []\<rparr>, s'))"
  by (auto simp: WriteTo_def top_buf_def Buffer_WriteTo_def [of _ "[]"] split: sum.splits option.splits)

text \<open>
  The result of \<open>WriteTo\<close> into a writer that keeps its promise, from the two
  answers of the writer; and what the sink then holds.
\<close>

lemma WriteTo_exact:
  assumes "honest Write written"
  shows "case Write file (top_buf ks p) of (n1, e1, file1) \<Rightarrow>
       if e1 \<noteq> None \<or> n1 < length (top_buf ks p) then
         WriteTo Write ks p file =
           Inr (n1, (case e1 of Some e \<Rightarrow> Some e | None \<Rightarrow> Some ErrShortWrite), p, file1)
       else if w p = [] then WriteTo Write ks p file = Inr (n1, None, p, file1)
       else (case Write file1 (w p) of (n2, e2, file2) \<Rightarrow>
         WriteTo Write ks p file =
           Inr (n1 + n2,
                (case e2 of Some e \<Rightarrow> Some e
                 | None \<Rightarrow> if n2 < length (w p) then Some ErrShortWrite else None),
                p\<lparr>w := drop n2 (w p)\<rparr>, file2))"
proof -
  obtain n1 e1 file1 where w1: "Write file (top_buf ks p) = (n1, e1, file1)"
    by (cases "Write file (top_buf ks p)") auto
  obtain n2 e2 file2 where w2: "Write file1 (w p) = (n2, e2, file2)"
    by (cases "Write file1 (w p)") auto
  from honest_Write [OF assms w1] have n1: "n1 \<le> length (top_buf ks p)" by simp
  from honest_Write [OF assms w2] have n2: "n2 \<le> length (w p)" by simp
  have t: "top_buf ks p \<noteq> []" by (rule top_buf_not_Nil)
  show ?thesis
  proof (cases "e1 \<noteq> None \<or> n1 < length (top_buf ks p)")
    case True
    with w1 n1 t show ?thesis
      by (cases e1) (auto simp: WriteTo_def Buffer_WriteTo_def)
  next
    case False
    then have full: "e1 = None" "n1 = length (top_buf ks p)" using n1 by auto
    show ?thesis
    proof (cases "w p = []")
      case True
      with w1 full t show ?thesis
        by (simp add: WriteTo_def Buffer_WriteTo_def)
    next
      case False
      with w1 w2 full t n2 show ?thesis
        by (cases e2) (auto simp: WriteTo_def Buffer_WriteTo_def)
    qed
  qed
qed

lemma WriteTo_written:
  assumes "honest Write written"
  shows "\<exists>n err p' file'. WriteTo Write ks p file = Inr (n, err, p', file')
     \<and> written file' = written file @ take n (top_buf ks p @ w p)
     \<and> n \<le> length (top_buf ks p) + length (w p)
     \<and> (err = None \<longrightarrow> n = length (top_buf ks p) + length (w p))
     \<and> (case Write file (top_buf ks p) of (n1, e1, file1) \<Rightarrow>
          (\<forall>e. e1 = Some e \<longrightarrow> err = Some e)
          \<and> (e1 \<noteq> None \<or> n1 < length (top_buf ks p) \<longrightarrow>
                n = n1 \<and> err \<noteq> None \<and> p' = p \<and> file' = file1)
          \<and> (e1 = None \<and> n1 = length (top_buf ks p) \<and> w p \<noteq> [] \<longrightarrow>
                (case Write file1 (w p) of (n2, e2, file2) \<Rightarrow>
                   n = n1 + n2 \<and> file' = file2 \<and> p' = p\<lparr>w := drop n2 (w p)\<rparr>
                   \<and> (\<forall>e. e2 = Some e \<longrightarrow> err = Some e))))"
proof -
  obtain n1 e1 file1 where w1: "Write file (top_buf ks p) = (n1, e1, file1)"
    by (cases "Write file (top_buf ks p)") auto
  from Buffer_WriteTo_honest [OF assms, of "top_buf ks p" "file"] obtain err1 b1 where
    b1: "Buffer_WriteTo Write (top_buf ks p) file = Inr (n1, err1, b1, file1)"
    and n1: "n1 \<le> length (top_buf ks p)"
    and wr1: "written file1 = written file @ take n1 (top_buf ks p)"
    and e1: "err1 = None \<longleftrightarrow> e1 = None \<and> n1 = length (top_buf ks p)"
    and f1: "\<forall>e. e1 = Some e \<longrightarrow> err1 = Some e"
    using w1 top_buf_not_Nil [of ks p] by auto
  show ?thesis
  proof (cases err1)
    case (Some e)
    with b1 have "WriteTo Write ks p file = Inr (n1, Some e, p, file1)"
      by (simp add: WriteTo_def)
    with Some n1 wr1 e1 f1 w1 show ?thesis by auto
  next
    case None
    with e1 have full: "e1 = None" "n1 = length (top_buf ks p)" by simp_all
    obtain n2 e2 file2 where w2: "Write file1 (w p) = (n2, e2, file2)"
      by (cases "Write file1 (w p)") auto
    from Buffer_WriteTo_honest [OF assms, of "w p" file1] obtain n err b2 file' where
      b2: "Buffer_WriteTo Write (w p) file1 = Inr (n, err, b2, file')"
      and n2: "n \<le> length (w p)"
      and wr2: "written file' = written file1 @ take n (w p)"
      and bb: "b2 = drop n (w p)"
      and e2: "err = None \<longleftrightarrow> (w p = [] \<or> (e2 = None \<and> n2 = length (w p)))"
      and f2: "w p \<noteq> [] \<longrightarrow> n = n2 \<and> file' = file2 \<and> (\<forall>e. e2 = Some e \<longrightarrow> err = Some e)"
      using w2 by auto
    from b1 b2 None have res: "WriteTo Write ks p file = Inr (n1 + n, err, p\<lparr>w := b2\<rparr>, file')"
      by (simp add: WriteTo_def)
    have wr: "written file' = written file @ take (n1 + n) (top_buf ks p @ w p)"
      using wr1 wr2 full by simp
    have "err = None \<longrightarrow> n = length (w p)"
      using e2 f2 n2 by auto
    with res wr n2 full w1 w2 f2 bb show ?thesis by auto
  qed
qed

text \<open>
  The import block of a registry in which no two aliases share a path: the
  paths in ascending order, each with its own alias, whatever the order in
  which the loop visits the map.
\<close>

lemma collect_paths: "snd (collect kvs (pq, ps)) = ps @ map snd kvs"
  by (induction kvs arbitrary: pq ps) auto

lemma collect_keep: "pa \<notin> snd ` set kvs \<Longrightarrow> fst (collect kvs (pq, ps)) pa = pq pa"
  by (induction kvs arbitrary: pq ps) auto

lemma collect_qual:
  "distinct (map snd kvs) \<Longrightarrow> (qual, pa) \<in> set kvs \<Longrightarrow> fst (collect kvs (pq, ps)) pa = Some qual"
proof (induction kvs arbitrary: pq ps)
  case Nil
  then show ?case by simp
next
  case (Cons kv kvs)
  obtain q' pa' where kv: "kv = (q', pa')" by (cases kv)
  show ?case
  proof (cases "(qual, pa) \<in> set kvs")
    case True
    with Cons show ?thesis by (simp add: kv)
  next
    case False
    with Cons.prems kv have "q' = qual" "pa' = pa" "pa \<notin> snd ` set kvs" by auto
    then show ?thesis by (simp add: kv collect_keep)
  qed
qed

lemma range_map_is_range:
  assumes "is_range m ks"
  shows "range_map m ks = map (\<lambda>k. (k, the (m k))) ks"
proof -
  have "set ks \<subseteq> dom m \<Longrightarrow> range_map m ks = map (\<lambda>k. (k, the (m k))) ks"
    by (induction ks) (auto simp: range_map_def)
  with assms show ?thesis by (simp add: is_range_def)
qed

lemma import_lines_one_alias_per_path:
  assumes "is_range m ks" and "inj_on m (dom m)"
  shows "import_lines m ks =
     map (\<lambda>pa. import_line (the_inv_into (dom m) m (Some pa)) pa) (sorted_list_of_set (ran m))"
proof -
  define kvs where "kvs = range_map m ks"
  obtain pq paths where c: "collect kvs (Map.empty, []) = (pq, paths)"
    by (cases "collect kvs (Map.empty, [])")
  from assms(1) have d: "distinct ks" and s: "set ks = dom m" by (simp_all add: is_range_def)
  have kvs: "kvs = map (\<lambda>k. (k, the (m k))) ks"
    unfolding kvs_def by (rule range_map_is_range [OF assms(1)])
  have inj: "inj_on (\<lambda>k. the (m k)) (set ks)"
    using assms(2) s by (auto simp: inj_on_def dom_def)
  have snd_kvs: "map snd kvs = map (\<lambda>k. the (m k)) ks" by (simp add: kvs comp_def)
  have "distinct (map (\<lambda>k. the (m k)) ks)" using d inj by (simp add: distinct_map)
  then have dist: "distinct (map snd kvs)" by (simp only: snd_kvs)
  have "set (map (\<lambda>k. the (m k)) ks) = ran m"
    using s by (force simp: ran_def dom_def image_iff)
  then have set_paths: "set (map snd kvs) = ran m" by (simp only: snd_kvs)
  from collect_paths [of kvs Map.empty "[]"] c have paths: "paths = map snd kvs" by simp
  have sorted_paths: "sort paths = sorted_list_of_set (ran m)"
    using dist set_paths paths by (metis distinct_remdups_id sorted_list_of_set_sort_remdups)
  have qual: "index_map pq pa = the_inv_into (dom m) m (Some pa)" if "pa \<in> ran m" for pa
  proof -
    from that obtain k where k: "m k = Some pa" by (auto simp: ran_def)
    then have "(k, pa) \<in> set kvs" using s by (force simp: kvs dom_def image_iff)
    from collect_qual [OF dist this, of Map.empty "[]"] c have "pq pa = Some k" by simp
    moreover from k assms(2) have "the_inv_into (dom m) m (Some pa) = k"
      by (metis domI the_inv_into_f_f)
    ultimately show ?thesis by (simp add: index_map_def)
  qed
  have fin: "finite (ran m)" using set_paths [symmetric] by simp
  have "import_lines m ks = map (\<lambda>pa. import_line (index_map pq pa) pa) (sorted_list_of_set (ran m))"
    using c sorted_paths by (simp add: import_lines_def kvs_def [symmetric])
  also have "\<dots> = map (\<lambda>pa. import_line (the_inv_into (dom m) m (Some pa)) pa) (sorted_list_of_set (ran m))"
    using fin qual by (intro map_cong) simp_all
  finally show ?thesis .
qed

lemma honest_buffer: "honest Write_buffer id"
  by (simp add: honest_def Write_buffer_def)

lemma honest_closed: "honest Write_closed id"
  by (simp add: honest_def Write_closed_def)

lemma LastIndex_example:
  "LastIndex (''github.com/x'' @ ''/vendor/'' @ ''example.com/pkg/fmt'') ''/vendor/'' = int (length ''github.com/x'')"
  by code_simp

section \<open>The claims\<close>

text \<open>
  C1.  Once a call of an import closure for a path has returned, every later
  call of a closure declared under the same preferred name for a path with the
  same unvendored path returns the same identifier, and changes nothing.
\<close>

theorem same_path_same_name:
  assumes "Import U p c = Inr (k, c', p1)" and "run U Sprintf p1 cs = Inr (tr, p2)"
    and "name d = name c" and "unvendor (path d) = unvendor (path c)"
  shows "Import U p2 d = Inr (k, d\<lparr>path := unvendor (path d)\<rparr>, p2)"
proof -
  from run_registry [OF assms(2)] have "imports p1 \<subseteq>\<^sub>m imports p2" by simp
  from Import_again [OF assms(1) this assms(3,4)] show ?thesis .
qed

theorem same_path_same_name_witness:
  "Import unicode_ascii ((newPrinter ''main'')\<lparr>imports := [''fmt'' \<mapsto> ''fmt'']\<rparr>)
       (NewImport ''fmt'' ''example.com/pkg/fmt'')
     = Inr (''example_com_pkg_fmt'', NewImport ''fmt'' ''example.com/pkg/fmt'',
            (newPrinter ''main'')\<lparr>imports := [''fmt'' \<mapsto> ''fmt'', ''example_com_pkg_fmt'' \<mapsto> ''example.com/pkg/fmt'']\<rparr>)
   \<and> run unicode_ascii Sprintf_plain
       ((newPrinter ''main'')\<lparr>imports := [''fmt'' \<mapsto> ''fmt'', ''example_com_pkg_fmt'' \<mapsto> ''example.com/pkg/fmt'']\<rparr>)
       [CallIn, CallImport (NewImport ''io'' ''io'')]
     = Inr ([(NewImport ''io'' ''io'', ''io'')],
            (newPrinter ''main'')\<lparr>imports := [''fmt'' \<mapsto> ''fmt'', ''example_com_pkg_fmt'' \<mapsto> ''example.com/pkg/fmt'', ''io'' \<mapsto> ''io''],
               indent := [CHR 0x09]\<rparr>)
   \<and> name (NewImport ''fmt'' ''github.com/x/vendor/example.com/pkg/fmt'') = name (NewImport ''fmt'' ''example.com/pkg/fmt'')
   \<and> unvendor (path (NewImport ''fmt'' ''github.com/x/vendor/example.com/pkg/fmt''))
       = unvendor (path (NewImport ''fmt'' ''example.com/pkg/fmt''))
   \<and> Import unicode_ascii
       ((newPrinter ''main'')\<lparr>imports := [''fmt'' \<mapsto> ''fmt'', ''example_com_pkg_fmt'' \<mapsto> ''example.com/pkg/fmt'', ''io'' \<mapsto> ''io''],
               indent := [CHR 0x09]\<rparr>)
       (NewImport ''fmt'' ''github.com/x/vendor/example.com/pkg/fmt'')
     = Inr (''example_com_pkg_fmt'', NewImport ''fmt'' ''example.com/pkg/fmt'',
            (newPrinter ''main'')\<lparr>imports := [''fmt'' \<mapsto> ''fmt'', ''example_com_pkg_fmt'' \<mapsto> ''example.com/pkg/fmt'', ''io'' \<mapsto> ''io''],
               indent := [CHR 0x09]\<rparr>)"
proof -
  have i: "Import unicode_ascii ((newPrinter ''main'')\<lparr>imports := [''fmt'' \<mapsto> ''fmt'']\<rparr>)
       (NewImport ''fmt'' ''example.com/pkg/fmt'')
     = Inr (''example_com_pkg_fmt'', NewImport ''fmt'' ''example.com/pkg/fmt'',
            (newPrinter ''main'')\<lparr>imports := [''fmt'' \<mapsto> ''fmt'', ''example_com_pkg_fmt'' \<mapsto> ''example.com/pkg/fmt'']\<rparr>)"
    by (simp add: Import_def Let_def NewImport_def newPrinter_def unvendor_plain makeFullpath_example)
  have r: "run unicode_ascii Sprintf_plain
       ((newPrinter ''main'')\<lparr>imports := [''fmt'' \<mapsto> ''fmt'', ''example_com_pkg_fmt'' \<mapsto> ''example.com/pkg/fmt'']\<rparr>)
       [CallIn, CallImport (NewImport ''io'' ''io'')]
     = Inr ([(NewImport ''io'' ''io'', ''io'')],
            (newPrinter ''main'')\<lparr>imports := [''fmt'' \<mapsto> ''fmt'', ''example_com_pkg_fmt'' \<mapsto> ''example.com/pkg/fmt'', ''io'' \<mapsto> ''io''],
               indent := [CHR 0x09]\<rparr>)"
    by (simp add: Import_def Let_def NewImport_def newPrinter_def unvendor_def In_def)
  have n: "name (NewImport ''fmt'' ''github.com/x/vendor/example.com/pkg/fmt'') = name (NewImport ''fmt'' ''example.com/pkg/fmt'')"
    by (simp add: NewImport_def)
  have u: "unvendor (path (NewImport ''fmt'' ''github.com/x/vendor/example.com/pkg/fmt''))
       = unvendor (path (NewImport ''fmt'' ''example.com/pkg/fmt''))"
    by (simp add: NewImport_def unvendor_example unvendor_plain)
  from same_path_same_name [OF i r n u] i r n u show ?thesis
    by (simp add: NewImport_def unvendor_example)
qed

text \<open>
  Under another preferred name the same path gets another identifier: the
  registry is keyed by name, and a name that is not registered yet is taken as
  it is.  On a new printer the path \<open>p\<close> is registered as \<open>a\<close> and then as \<open>b\<close>.
\<close>

theorem same_path_other_name_counterexample:
  "run unicode_ascii Sprintf_plain (newPrinter ''main'')
       [CallImport (NewImport ''a'' ''p''), CallImport (NewImport ''b'' ''p'')]
     = Inr ([(NewImport ''a'' ''p'', ''a''), (NewImport ''b'' ''p'', ''b'')],
            (newPrinter ''main'')\<lparr>imports := [''a'' \<mapsto> ''p'', ''b'' \<mapsto> ''p'']\<rparr>)
   \<and> ''a'' \<noteq> ''b''"
  by (simp add: Import_def Let_def NewImport_def newPrinter_def unvendor_plain)

text \<open>
  C2.  Over any run that does not panic, a key that is registered stays
  registered to the same path; every alias a call returned is registered to
  the unvendored path of its closure; so two calls for distinct unvendored
  paths never return the same alias.
\<close>

theorem registry_never_remapped:
  assumes "run U Sprintf p cs = Inr (tr, p')"
  shows "(\<forall>k q. imports p k = Some q \<longrightarrow> imports p' k = Some q)
      \<and> (\<forall>(c, k) \<in> set tr. imports p' k = Some (unvendor (path c)))
      \<and> (\<forall>(c1, k1) \<in> set tr. \<forall>(c2, k2) \<in> set tr.
            unvendor (path c1) \<noteq> unvendor (path c2) \<longrightarrow> k1 \<noteq> k2)"
proof -
  from run_registry [OF assms]
  have le: "imports p \<subseteq>\<^sub>m imports p'"
    and reg: "\<forall>(c, k) \<in> set tr. imports p' k = Some (unvendor (path c))" by simp_all
  from le have "\<forall>k q. imports p k = Some q \<longrightarrow> imports p' k = Some q"
    by (auto simp: map_le_def dom_def)
  moreover have "k1 \<noteq> k2"
    if "(c1, k1) \<in> set tr" "(c2, k2) \<in> set tr" "unvendor (path c1) \<noteq> unvendor (path c2)"
    for c1 k1 c2 k2
  proof -
    from reg that(1) have "imports p' k1 = Some (unvendor (path c1))" by blast
    moreover from reg that(2) have "imports p' k2 = Some (unvendor (path c2))" by blast
    ultimately show ?thesis using that(3) by auto
  qed
  then have "\<forall>(c1, k1) \<in> set tr. \<forall>(c2, k2) \<in> set tr.
      unvendor (path c1) \<noteq> unvendor (path c2) \<longrightarrow> k1 \<noteq> k2"
    by blast
  ultimately show ?thesis using reg by blast
qed

theorem registry_never_remapped_witness:
  "run unicode_ascii Sprintf_plain ((newPrinter ''main'')\<lparr>imports := [''fmt'' \<mapsto> ''fmt'']\<rparr>)
       [CallImport (NewImport ''fmt'' ''example.com/pkg/fmt''), CallImport (NewImport ''fmt'' ''fmt'')]
     = Inr ([(NewImport ''fmt'' ''example.com/pkg/fmt'', ''example_com_pkg_fmt''),
             (NewImport ''fmt'' ''fmt'', ''fmt'')],
            (newPrinter ''main'')\<lparr>imports := [''fmt'' \<mapsto> ''fmt'', ''example_com_pkg_fmt'' \<mapsto> ''example.com/pkg/fmt'']\<rparr>)
   \<and> imports ((newPrinter ''main'')\<lparr>imports := [''fmt'' \<mapsto> ''fmt'', ''example_com_pkg_fmt'' \<mapsto> ''example.com/pkg/fmt'']\<rparr>) ''fmt''
       = Some ''fmt''
   \<and> imports ((newPrinter ''main'')\<lparr>imports := [''fmt'' \<mapsto> ''fmt'', ''example_com_pkg_fmt'' \<mapsto> ''example.com/pkg/fmt'']\<rparr>)
         ''example_com_pkg_fmt'' = Some (unvendor (path (NewImport ''fmt'' ''example.com/pkg/fmt'')))
   \<and> unvendor (path (NewImport ''fmt'' ''example.com/pkg/fmt'')) \<noteq> unvendor (path (NewImport ''fmt'' ''fmt''))
   \<and> ''example_com_pkg_fmt'' \<noteq> ''fmt''"
proof -
  have r: "run unicode_ascii Sprintf_plain ((newPrinter ''main'')\<lparr>imports := [''fmt'' \<mapsto> ''fmt'']\<rparr>)
       [CallImport (NewImport ''fmt'' ''example.com/pkg/fmt''), CallImport (NewImport ''fmt'' ''fmt'')]
     = Inr ([(NewImport ''fmt'' ''example.com/pkg/fmt'', ''example_com_pkg_fmt''),
             (NewImport ''fmt'' ''fmt'', ''fmt'')],
            (newPrinter ''main'')\<lparr>imports := [''fmt'' \<mapsto> ''fmt'', ''example_com_pkg_fmt'' \<mapsto> ''example.com/pkg/fmt'']\<rparr>)"
    by (simp add: Import_def Let_def NewImport_def newPrinter_def unvendor_plain makeFullpath_example)
  from registry_never_remapped [OF r] r show ?thesis
    by (simp add: NewImport_def unvendor_plain)
qed

text \<open>
  C3.  Two closures with the same preferred name and different unvendored
  paths, both called without a panic, get distinct identifiers.  When the
  preferred name is not registered before the first call, the first gets the
  preferred name and the second the sanitized full path of its unvendored
  path.  The identifiers are non-empty when the preferred name and the two
  unvendored paths are.
\<close>

theorem collision_distinct:
  assumes "name c2 = name c1" and "unvendor (path c1) \<noteq> unvendor (path c2)"
    and "Import U p c1 = Inr (k1, c1', p1)"
    and "run U Sprintf p1 cs = Inr (tr, p2)"
    and "Import U p2 c2 = Inr (k2, c2', p3)"
  shows "k1 \<noteq> k2
      \<and> (imports p (name c1) = None \<longrightarrow>
           k1 = name c1 \<and> k2 = makeFullpath U (unvendor (path c2)))
      \<and> (name c1 \<noteq> [] \<and> unvendor (path c1) \<noteq> [] \<and> unvendor (path c2) \<noteq> [] \<longrightarrow>
           k1 \<noteq> [] \<and> k2 \<noteq> [])"
proof -
  from Import_Inr_iff [OF assms(3)]
  have r1: "imports p1 k1 = Some (unvendor (path c1))" by simp
  from run_registry [OF assms(4)] have le12: "imports p1 \<subseteq>\<^sub>m imports p2" by simp
  from Import_Inr_iff [OF assms(5)]
  have r2: "imports p3 k2 = Some (unvendor (path c2))" and le23: "imports p2 \<subseteq>\<^sub>m imports p3"
    by simp_all
  from r1 le12 have r12: "imports p2 k1 = Some (unvendor (path c1))"
    by (auto simp: map_le_def dom_def)
  with le23 have "imports p3 k1 = Some (unvendor (path c1))"
    by (auto simp: map_le_def dom_def)
  with r2 assms(2) have distinct: "k1 \<noteq> k2" by auto
  have first: "k1 = name c1 \<and> k2 = makeFullpath U (unvendor (path c2))"
    if "imports p (name c1) = None"
  proof -
    from that assms(3) have k1: "k1 = name c1"
      by (simp add: Import_def Let_def)
    with distinct assms(1) have "k2 \<noteq> name c2" by simp
    with Import_result [OF assms(5)] k1 show ?thesis by auto
  qed
  have nonempty: "k1 \<noteq> [] \<and> k2 \<noteq> []"
    if "name c1 \<noteq> [] \<and> unvendor (path c1) \<noteq> [] \<and> unvendor (path c2) \<noteq> []"
  proof -
    from Import_result [OF assms(3)]
    have "k1 = name c1 \<or> k1 = makeFullpath U (unvendor (path c1))" by auto
    with that have "k1 \<noteq> []" by (metis makeFullpath_Nil_iff)
    moreover from Import_result [OF assms(5)]
    have "k2 = name c2 \<or> k2 = makeFullpath U (unvendor (path c2))" by auto
    with that assms(1) have "k2 \<noteq> []" by (metis makeFullpath_Nil_iff)
    ultimately show ?thesis by simp
  qed
  from distinct first nonempty show ?thesis by blast
qed

theorem collision_distinct_witness:
  "name (NewImport ''fmt'' ''example.com/pkg/fmt'') = name (NewImport ''fmt'' ''fmt'')
   \<and> unvendor (path (NewImport ''fmt'' ''fmt'')) \<noteq> unvendor (path (NewImport ''fmt'' ''example.com/pkg/fmt''))
   \<and> Import unicode_ascii (newPrinter ''main'') (NewImport ''fmt'' ''fmt'')
     = Inr (''fmt'', NewImport ''fmt'' ''fmt'', (newPrinter ''main'')\<lparr>imports := [''fmt'' \<mapsto> ''fmt'']\<rparr>)
   \<and> run unicode_ascii Sprintf_plain ((newPrinter ''main'')\<lparr>imports := [''fmt'' \<mapsto> ''fmt'']\<rparr>) [CallIn, CallOut]
     = Inr ([], (newPrinter ''main'')\<lparr>imports := [''fmt'' \<mapsto> ''fmt'']\<rparr>)
   \<and> Import unicode_ascii ((newPrinter ''main'')\<lparr>imports := [''fmt'' \<mapsto> ''fmt'']\<rparr>)
       (NewImport ''fmt'' ''example.com/pkg/fmt'')
     = Inr (''example_com_pkg_fmt'', NewImport ''fmt'' ''example.com/pkg/fmt'',
            (newPrinter ''main'')\<lparr>imports := [''fmt'' \<mapsto> ''fmt'', ''example_com_pkg_fmt'' \<mapsto> ''example.com/pkg/fmt'']\<rparr>)
   \<and> imports (newPrinter ''main'') (name (NewImport ''fmt'' ''fmt'')) = None
   \<and> ''fmt'' \<noteq> ''example_com_pkg_fmt''
   \<and> ''fmt'' = name (NewImport ''fmt'' ''fmt'')
   \<and> ''example_com_pkg_fmt'' = makeFullpath unicode_ascii (unvendor (path (NewImport ''fmt'' ''example.com/pkg/fmt'')))"
proof -
  have n: "name (NewImport ''fmt'' ''example.com/pkg/fmt'') = name (NewImport ''fmt'' ''fmt'')"
    by (simp add: NewImport_def)
  have u: "unvendor (path (NewImport ''fmt'' ''fmt'')) \<noteq> unvendor (path (NewImport ''fmt'' ''example.com/pkg/fmt''))"
    by (simp add: NewImport_def unvendor_plain)
  have i1: "Import unicode_ascii (newPrinter ''main'') (NewImport ''fmt'' ''fmt'')
     = Inr (''fmt'', NewImport ''fmt'' ''fmt'', (newPrinter ''main'')\<lparr>imports := [''fmt'' \<mapsto> ''fmt'']\<rparr>)"
    by (simp add: Import_def Let_def NewImport_def newPrinter_def unvendor_plain)
  have r: "run unicode_ascii Sprintf_plain ((newPrinter ''main'')\<lparr>imports := [''fmt'' \<mapsto> ''fmt'']\<rparr>) [CallIn, CallOut]
     = Inr ([], (newPrinter ''main'')\<lparr>imports := [''fmt'' \<mapsto> ''fmt'']\<rparr>)"
    by (simp add: newPrinter_def In_def Out_def)
  have i2: "Import unicode_ascii ((newPrinter ''main'')\<lparr>imports := [''fmt'' \<mapsto> ''fmt'']\<rparr>)
       (NewImport ''fmt'' ''example.com/pkg/fmt'')
     = Inr (''example_com_pkg_fmt'', NewImport ''fmt'' ''example.com/pkg/fmt'',
            (newPrinter ''main'')\<lparr>imports := [''fmt'' \<mapsto> ''fmt'', ''example_com_pkg_fmt'' \<mapsto> ''example.com/pkg/fmt'']\<rparr>)"
    by (simp add: Import_def Let_def NewImport_def newPrinter_def unvendor_plain makeFullpath_example)
  have e: "imports (newPrinter ''main'') (name (NewImport ''fmt'' ''fmt'')) = None"
    by (simp add: newPrinter_def)
  from collision_distinct [OF n u i1 r i2] e n u i1 r i2 show ?thesis
    by (simp add: NewImport_def unvendor_plain makeFullpath_example)
qed

text \<open>
  Nothing keeps the preferred name from being empty: on a new printer the
  empty name is registered for \<open>a\<close> and returned, so one of the two identifiers
  is the empty string.
\<close>

theorem collision_empty_name_counterexample:
  "run unicode_ascii Sprintf_plain (newPrinter ''main'')
       [CallImport (NewImport [] ''a''), CallImport (NewImport [] ''b'')]
     = Inr ([(NewImport [] ''a'', []), (NewImport [] ''b'', ''b'')],
            (newPrinter ''main'')\<lparr>imports := [[] \<mapsto> ''a'', ''b'' \<mapsto> ''b'']\<rparr>)
   \<and> name (NewImport [] ''a'') = name (NewImport [] ''b'')
   \<and> unvendor (path (NewImport [] ''a'')) \<noteq> unvendor (path (NewImport [] ''b''))"
  by (simp add: Import_def Let_def NewImport_def newPrinter_def unvendor_plain makeFullpath_b)

text \<open>
  C4.  A call of an import closure panics if and only if the preferred name
  is registered to another path and the sanitized full path is registered to
  another path too; in every other case it returns a name.
\<close>

theorem Import_panics_iff:
  "((\<exists>e. Import U p c = Inl e) \<longleftrightarrow>
      (\<exists>pa1 path2. imports p (name c) = Some pa1 \<and> pa1 \<noteq> unvendor (path c)
         \<and> imports p (makeFullpath U (unvendor (path c))) = Some path2
         \<and> path2 \<noteq> unvendor (path c)))
   \<and> ((\<exists>k c' p'. Import U p c = Inr (k, c', p')) \<longleftrightarrow> (\<nexists>e. Import U p c = Inl e))"
proof -
  have "(\<exists>e. Import U p c = Inl e) \<longleftrightarrow>
      (\<exists>pa1 path2. imports p (name c) = Some pa1 \<and> pa1 \<noteq> unvendor (path c)
         \<and> imports p (makeFullpath U (unvendor (path c))) = Some path2
         \<and> path2 \<noteq> unvendor (path c))"
    by (auto simp: Import_def Let_def split: option.splits if_splits)
  moreover have "(\<exists>k c' p'. Import U p c = Inr (k, c', p')) \<longleftrightarrow> (\<nexists>e. Import U p c = Inl e)"
    by (cases "Import U p c") auto
  ultimately show ?thesis by simp
qed

theorem Import_panics_iff_witness:
  "Import unicode_ascii ((newPrinter ''main'')\<lparr>imports := [''a_b'' \<mapsto> ''x'']\<rparr>) (NewImport ''a_b'' ''a/b'')
     = Inl (Panic ''non unique fullpath: x != a/b'')
   \<and> imports ((newPrinter ''main'')\<lparr>imports := [''a_b'' \<mapsto> ''x'']\<rparr>) (name (NewImport ''a_b'' ''a/b'')) = Some ''x''
   \<and> ''x'' \<noteq> unvendor (path (NewImport ''a_b'' ''a/b''))
   \<and> imports ((newPrinter ''main'')\<lparr>imports := [''a_b'' \<mapsto> ''x'']\<rparr>)
        (makeFullpath unicode_ascii (unvendor (path (NewImport ''a_b'' ''a/b'')))) = Some ''x''"
  using Import_panics_iff [of unicode_ascii "(newPrinter ''main'')\<lparr>imports := [''a_b'' \<mapsto> ''x'']\<rparr>" "NewImport ''a_b'' ''a/b''"]
  by (simp add: Import_def Let_def NewImport_def newPrinter_def unvendor_plain makeFullpath_a_b)

text \<open>
  C5.  Two aliases registered for one path: the loop over the imports keeps one
  qualifier per path, the last one it meets, and appends the path once per
  alias.  After \<open>NewImport("a", "p")()\<close> and \<open>NewImport("b", "p")()\<close> the block has
  the line of \<open>p\<close> twice under one alias, the other alias is not imported, and
  which alias it is depends on the order in which the map is visited.
\<close>

theorem WriteTo_two_aliases_of_one_path:
  "run unicode_ascii Sprintf_plain (newPrinter ''main'')
       [CallImport (NewImport ''a'' ''p''), CallImport (NewImport ''b'' ''p'')]
     = Inr ([(NewImport ''a'' ''p'', ''a''), (NewImport ''b'' ''p'', ''b'')],
            (newPrinter ''main'')\<lparr>imports := [''a'' \<mapsto> ''p'', ''b'' \<mapsto> ''p'']\<rparr>)
   \<and> is_range [''a'' \<mapsto> ''p'', ''b'' \<mapsto> ''p''] [''a'', ''b'']
   \<and> is_range [''a'' \<mapsto> ''p'', ''b'' \<mapsto> ''p''] [''b'', ''a'']
   \<and> import_lines [''a'' \<mapsto> ''p'', ''b'' \<mapsto> ''p''] [''a'', ''b'']
       = [import_line ''b'' ''p'', import_line ''b'' ''p'']
   \<and> import_lines [''a'' \<mapsto> ''p'', ''b'' \<mapsto> ''p''] [''b'', ''a'']
       = [import_line ''a'' ''p'', import_line ''a'' ''p'']
   \<and> import_line ''a'' ''p'' = [CHR 0x09] @ ''a '' @ [CHR 0x22] @ ''p'' @ [CHR 0x22] @ ''\<newline>''
   \<and> import_line ''b'' ''p'' = [CHR 0x09] @ ''b '' @ [CHR 0x22] @ ''p'' @ [CHR 0x22] @ ''\<newline>''
   \<and> top_buf [''a'', ''b''] ((newPrinter ''main'')\<lparr>imports := [''a'' \<mapsto> ''p'', ''b'' \<mapsto> ''p'']\<rparr>)
       \<noteq> top_buf [''b'', ''a''] ((newPrinter ''main'')\<lparr>imports := [''a'' \<mapsto> ''p'', ''b'' \<mapsto> ''p'']\<rparr>)"
proof -
  have r: "run unicode_ascii Sprintf_plain (newPrinter ''main'')
       [CallImport (NewImport ''a'' ''p''), CallImport (NewImport ''b'' ''p'')]
     = Inr ([(NewImport ''a'' ''p'', ''a''), (NewImport ''b'' ''p'', ''b'')],
            (newPrinter ''main'')\<lparr>imports := [''a'' \<mapsto> ''p'', ''b'' \<mapsto> ''p'']\<rparr>)"
    by (simp add: Import_def Let_def NewImport_def newPrinter_def unvendor_plain)
  have ab: "import_lines [''a'' \<mapsto> ''p'', ''b'' \<mapsto> ''p''] [''a'', ''b'']
       = [import_line ''b'' ''p'', import_line ''b'' ''p'']"
    by (simp add: import_lines_def range_map_def index_map_def)
  have ba: "import_lines [''a'' \<mapsto> ''p'', ''b'' \<mapsto> ''p''] [''b'', ''a'']
       = [import_line ''a'' ''p'', import_line ''a'' ''p'']"
    by (simp add: import_lines_def range_map_def index_map_def)
  have rg: "is_range [''a'' \<mapsto> ''p'', ''b'' \<mapsto> ''p''] [''a'', ''b'']"
    "is_range [''a'' \<mapsto> ''p'', ''b'' \<mapsto> ''p''] [''b'', ''a'']"
    by (auto simp: is_range_def)
  have ne: "top_buf [''a'', ''b''] ((newPrinter ''main'')\<lparr>imports := [''a'' \<mapsto> ''p'', ''b'' \<mapsto> ''p'']\<rparr>)
       \<noteq> top_buf [''b'', ''a''] ((newPrinter ''main'')\<lparr>imports := [''a'' \<mapsto> ''p'', ''b'' \<mapsto> ''p'']\<rparr>)"
    by (simp add: top_buf_def ab ba import_line_def)
  have ln: "import_line ''a'' ''p'' = [CHR 0x09] @ ''a '' @ [CHR 0x22] @ ''p'' @ [CHR 0x22] @ ''\<newline>''"
    "import_line ''b'' ''p'' = [CHR 0x09] @ ''b '' @ [CHR 0x22] @ ''p'' @ [CHR 0x22] @ ''\<newline>''"
    by (simp_all add: import_line_def)
  from r rg ab ba ln ne show ?thesis by blast
qed

text \<open>
  C6.  When the path is \<open>pre\<close>, the marker \<open>/vendor/\<close> and \<open>rest\<close>, and this
  occurrence of the marker is the last one, the path and \<open>rest\<close> unvendor to
  \<open>rest\<close>; closures declared for the two under one preferred name behave alike
  on every printer, and after a call of one has returned, a later call of the
  other returns the same identifier.
\<close>

theorem unvendor_same_reference:
  assumes "LastIndex (pre @ ''/vendor/'' @ rest) ''/vendor/'' = int (length pre)"
  shows "unvendor (pre @ ''/vendor/'' @ rest) = rest \<and> unvendor rest = rest
      \<and> Import U p (NewImport n (pre @ ''/vendor/'' @ rest)) = Import U p (NewImport n rest)
      \<and> (Import U p (NewImport n (pre @ ''/vendor/'' @ rest)) = Inr (k, c', p1)
           \<and> run U Sprintf p1 cs = Inr (tr, p2)
         \<longrightarrow> Import U p2 (NewImport n rest) = Inr (k, NewImport n rest, p2))
      \<and> (Import U p (NewImport n rest) = Inr (k, c', p1)
           \<and> run U Sprintf p1 cs = Inr (tr, p2)
         \<longrightarrow> Import U p2 (NewImport n (pre @ ''/vendor/'' @ rest)) = Inr (k, NewImport n rest, p2))"
proof -
  let ?raw = "pre @ ''/vendor/'' @ rest"
  have strip: "unvendor ?raw = rest" by (rule unvendor_strip [OF assms])
  have rest: "unvendor rest = rest" using unvendor_idem [of ?raw] by (simp only: strip)
  have same: "Import U p (NewImport n ?raw) = Import U p (NewImport n rest)" for p
    by (simp only: Import_def NewImport_def closure.simps strip rest)
  have later: "Import U p2 (NewImport n rest) = Inr (k, NewImport n rest, p2)"
    if "Import U p (NewImport n rest) = Inr (k, c', p1)" "run U Sprintf p1 cs = Inr (tr, p2)"
  proof -
    from run_registry [OF that(2)] have "imports p1 \<subseteq>\<^sub>m imports p2" by simp
    from Import_again [OF that(1) this, of "NewImport n rest"] show ?thesis
      by (simp add: NewImport_def rest)
  qed
  from strip rest same later show ?thesis by simp
qed

theorem unvendor_same_reference_witness:
  "LastIndex (''github.com/x'' @ ''/vendor/'' @ ''example.com/pkg/fmt'') ''/vendor/'' = int (length ''github.com/x'')
   \<and> unvendor ''github.com/x/vendor/example.com/pkg/fmt'' = ''example.com/pkg/fmt''
   \<and> Import unicode_ascii ((newPrinter ''main'')\<lparr>imports := [''fmt'' \<mapsto> ''fmt'']\<rparr>)
        (NewImport ''fmt'' ''github.com/x/vendor/example.com/pkg/fmt'')
      = Inr (''example_com_pkg_fmt'', NewImport ''fmt'' ''example.com/pkg/fmt'',
            (newPrinter ''main'')\<lparr>imports := [''fmt'' \<mapsto> ''fmt'', ''example_com_pkg_fmt'' \<mapsto> ''example.com/pkg/fmt'']\<rparr>)
   \<and> run unicode_ascii Sprintf_plain
        ((newPrinter ''main'')\<lparr>imports := [''fmt'' \<mapsto> ''fmt'', ''example_com_pkg_fmt'' \<mapsto> ''example.com/pkg/fmt'']\<rparr>)
        [CallIn]
      = Inr ([], (newPrinter ''main'')\<lparr>imports := [''fmt'' \<mapsto> ''fmt'', ''example_com_pkg_fmt'' \<mapsto> ''example.com/pkg/fmt''],
                   indent := [CHR 0x09]\<rparr>)
   \<and> Import unicode_ascii
        ((newPrinter ''main'')\<lparr>imports := [''fmt'' \<mapsto> ''fmt'', ''example_com_pkg_fmt'' \<mapsto> ''example.com/pkg/fmt''],
                   indent := [CHR 0x09]\<rparr>)
        (NewImport ''fmt'' ''example.com/pkg/fmt'')
      = Inr (''example_com_pkg_fmt'', NewImport ''fmt'' ''example.com/pkg/fmt'',
            (newPrinter ''main'')\<lparr>imports := [''fmt'' \<mapsto> ''fmt'', ''example_com_pkg_fmt'' \<mapsto> ''example.com/pkg/fmt''],
                   indent := [CHR 0x09]\<rparr>)"
proof -
  have i: "Import unicode_ascii ((newPrinter ''main'')\<lparr>imports := [''fmt'' \<mapsto> ''fmt'']\<rparr>)
        (NewImport ''fmt'' (''github.com/x'' @ ''/vendor/'' @ ''example.com/pkg/fmt''))
      = Inr (''example_com_pkg_fmt'', NewImport ''fmt'' ''example.com/pkg/fmt'',
            (newPrinter ''main'')\<lparr>imports := [''fmt'' \<mapsto> ''fmt'', ''example_com_pkg_fmt'' \<mapsto> ''example.com/pkg/fmt'']\<rparr>)"
    by (simp add: Import_def Let_def NewImport_def newPrinter_def unvendor_example makeFullpath_example)
  have r: "run unicode_ascii Sprintf_plain
        ((newPrinter ''main'')\<lparr>imports := [''fmt'' \<mapsto> ''fmt'', ''example_com_pkg_fmt'' \<mapsto> ''example.com/pkg/fmt'']\<rparr>)
        [CallIn]
      = Inr ([], (newPrinter ''main'')\<lparr>imports := [''fmt'' \<mapsto> ''fmt'', ''example_com_pkg_fmt'' \<mapsto> ''example.com/pkg/fmt''],
                   indent := [CHR 0x09]\<rparr>)"
    by (simp add: newPrinter_def In_def)
  from unvendor_same_reference [OF LastIndex_example, of unicode_ascii
      "(newPrinter ''main'')\<lparr>imports := [''fmt'' \<mapsto> ''fmt'']\<rparr>" "''fmt''" "''example_com_pkg_fmt''"
      "NewImport ''fmt'' ''example.com/pkg/fmt''"
      "(newPrinter ''main'')\<lparr>imports := [''fmt'' \<mapsto> ''fmt'', ''example_com_pkg_fmt'' \<mapsto> ''example.com/pkg/fmt'']\<rparr>"
      Sprintf_plain "[CallIn]" "[]"
      "(newPrinter ''main'')\<lparr>imports := [''fmt'' \<mapsto> ''fmt'', ''example_com_pkg_fmt'' \<mapsto> ''example.com/pkg/fmt''],
                   indent := [CHR 0x09]\<rparr>"]
    i r LastIndex_example
  show ?thesis by simp
qed

text \<open>
  C7.  A second or later call of an import closure, after a first call that
  returned, returns the name the first call returned, whatever calls were made
  on the printer in between; it leaves the closure and the printer as they are.
\<close>

theorem Import_idempotent:
  assumes "Import U p c = Inr (k, c', p1)" and "run U Sprintf p1 cs = Inr (tr, p2)"
  shows "Import U p2 c' = Inr (k, c', p2)"
proof -
  from Import_Inr_iff [OF assms(1)] have c': "c' = c\<lparr>path := unvendor (path c)\<rparr>" by simp
  from run_registry [OF assms(2)] have le: "imports p1 \<subseteq>\<^sub>m imports p2" by simp
  have "Import U p2 c' = Inr (k, c'\<lparr>path := unvendor (path c')\<rparr>, p2)"
    by (rule Import_again [OF assms(1) le]) (simp_all add: c' unvendor_idem)
  then show ?thesis by (simp add: c' unvendor_idem)
qed

theorem Import_idempotent_witness:
  "Import unicode_ascii ((newPrinter ''main'')\<lparr>imports := [''fmt'' \<mapsto> ''fmt'']\<rparr>)
       (NewImport ''fmt'' ''github.com/x/vendor/example.com/pkg/fmt'')
     = Inr (''example_com_pkg_fmt'', NewImport ''fmt'' ''example.com/pkg/fmt'',
            (newPrinter ''main'')\<lparr>imports := [''fmt'' \<mapsto> ''fmt'', ''example_com_pkg_fmt'' \<mapsto> ''example.com/pkg/fmt'']\<rparr>)
   \<and> run unicode_ascii Sprintf_plain
       ((newPrinter ''main'')\<lparr>imports := [''fmt'' \<mapsto> ''fmt'', ''example_com_pkg_fmt'' \<mapsto> ''example.com/pkg/fmt'']\<rparr>)
       [CallP ''x'' [], CallImport (NewImport ''io'' ''io'')]
     = Inr ([(NewImport ''io'' ''io'', ''io'')],
            (newPrinter ''main'')\<lparr>imports := [''fmt'' \<mapsto> ''fmt'', ''example_com_pkg_fmt'' \<mapsto> ''example.com/pkg/fmt'', ''io'' \<mapsto> ''io''],
               hasContent := True, w := ''x\<newline>''\<rparr>)
   \<and> Import unicode_ascii
       ((newPrinter ''main'')\<lparr>imports := [''fmt'' \<mapsto> ''fmt'', ''example_com_pkg_fmt'' \<mapsto> ''example.com/pkg/fmt'', ''io'' \<mapsto> ''io''],
               hasContent := True, w := ''x\<newline>''\<rparr>)
       (NewImport ''fmt'' ''example.com/pkg/fmt'')
     = Inr (''example_com_pkg_fmt'', NewImport ''fmt'' ''example.com/pkg/fmt'',
            (newPrinter ''main'')\<lparr>imports := [''fmt'' \<mapsto> ''fmt'', ''example_com_pkg_fmt'' \<mapsto> ''example.com/pkg/fmt'', ''io'' \<mapsto> ''io''],
               hasContent := True, w := ''x\<newline>''\<rparr>)"
proof -
  have i: "Import unicode_ascii ((newPrinter ''main'')\<lparr>imports := [''fmt'' \<mapsto> ''fmt'']\<rparr>)
       (NewImport ''fmt'' ''github.com/x/vendor/example.com/pkg/fmt'')
     = Inr (''example_com_pkg_fmt'', NewImport ''fmt'' ''example.com/pkg/fmt'',
            (newPrinter ''main'')\<lparr>imports := [''fmt'' \<mapsto> ''fmt'', ''example_com_pkg_fmt'' \<mapsto> ''example.com/pkg/fmt'']\<rparr>)"
    by (simp add: Import_def Let_def NewImport_def newPrinter_def unvendor_example makeFullpath_example)
  have r: "run unicode_ascii Sprintf_plain
       ((newPrinter ''main'')\<lparr>imports := [''fmt'' \<mapsto> ''fmt'', ''example_com_pkg_fmt'' \<mapsto> ''example.com/pkg/fmt'']\<rparr>)
       [CallP ''x'' [], CallImport (NewImport ''io'' ''io'')]
     = Inr ([(NewImport ''io'' ''io'', ''io'')],
            (newPrinter ''main'')\<lparr>imports := [''fmt'' \<mapsto> ''fmt'', ''example_com_pkg_fmt'' \<mapsto> ''example.com/pkg/fmt'', ''io'' \<mapsto> ''io''],
               hasContent := True, w := ''x\<newline>''\<rparr>)"
    by (simp add: Import_def Let_def NewImport_def newPrinter_def unvendor_def P_def Sprintf_plain_def)
  from Import_idempotent [OF i r] i r show ?thesis by simp
qed

text \<open>
  C8.  \<open>Out\<close> panics if and only if the indentation is empty.  Otherwise it
  returns, the indentation is one byte shorter and nothing else changes; on an
  indentation of tabs it removes one tab, and it undoes \<open>In\<close>.
\<close>

theorem Out_panics_iff:
  "((\<exists>e. Out p = Inl e) \<longleftrightarrow> length (indent p) = 0)
   \<and> (0 < length (indent p) \<longrightarrow>
        (\<exists>p'. Out p = Inr p' \<and> Suc (length (indent p')) = length (indent p)
           \<and> indent p' = drop 1 (indent p)
           \<and> pkgName p' = pkgName p \<and> w p' = w p \<and> imports p' = imports p
           \<and> hasContent p' = hasContent p))
   \<and> (indent p = replicate (Suc n) (CHR 0x09) \<longrightarrow>
        Out p = Inr (p\<lparr>indent := replicate n (CHR 0x09)\<rparr>))
   \<and> (indent p = replicate n (CHR 0x09) \<longrightarrow> Out (In p) = Inr p)"
proof -
  have "replicate n (CHR 0x09) @ [CHR 0x09] = CHR 0x09 # replicate n (CHR 0x09)"
    by (simp add: replicate_append_same)
  then show ?thesis
    by (auto simp: Out_def In_def)
qed

theorem Out_panics_iff_witness:
  "Out (newPrinter ''main'') = Inl (Panic ''bug in code generator: unindenting more than has been indented'')
   \<and> length (indent (newPrinter ''main'')) = 0
   \<and> 0 < length (indent (In (In (newPrinter ''main''))))
   \<and> indent (In (In (newPrinter ''main''))) = replicate (Suc (Suc 0)) (CHR 0x09)
   \<and> Out (In (In (newPrinter ''main''))) = Inr (In (newPrinter ''main''))
   \<and> Out (In (newPrinter ''main'')) = Inr (newPrinter ''main'')"
  using Out_panics_iff [of "newPrinter ''main''" 0]
    Out_panics_iff [of "In (In (newPrinter ''main''))" "Suc 0"]
    Out_panics_iff [of "In (newPrinter ''main'')" "Suc 0"]
  by (simp add: newPrinter_def In_def Out_def)

text \<open>
  C9.  Into a writer that keeps its promise, \<open>WriteTo\<close> returns the number of
  bytes written, which are the first bytes of the header block followed by the
  content, and the first error met; it returns no error exactly when the
  writer took every byte of every write without an error.  When the write of
  the header block fails or is short, the content is not written: the count is
  that of the header write, the error is the writer's, or \<open>io.ErrShortWrite\<close>
  when it gave none, the printer keeps its content and the sink is as the
  header write left it.  When the header write succeeds and there is no
  content, nothing more is written: the count is that of the header write and
  there is no error.  Otherwise the count is the sum of the two counts, the
  error is that of the content write (\<open>io.ErrShortWrite\<close> when it was short
  without one), and the buffer keeps the bytes not taken.
\<close>

theorem WriteTo_count_and_first_error:
  assumes "honest Write written"
  shows "\<exists>n err p' file'. WriteTo Write ks p file = Inr (n, err, p', file')
     \<and> written file' = written file @ take n (top_buf ks p @ w p)
     \<and> n \<le> length (top_buf ks p) + length (w p)
     \<and> (err = None \<longrightarrow> n = length (top_buf ks p) + length (w p))
     \<and> (case Write file (top_buf ks p) of (n1, e1, file1) \<Rightarrow>
          (err = None \<longleftrightarrow>
             e1 = None \<and> n1 = length (top_buf ks p)
             \<and> (w p = [] \<or> (case Write file1 (w p) of (n2, e2, file2) \<Rightarrow>
                               e2 = None \<and> n2 = length (w p))))
          \<and> (\<forall>e. e1 = Some e \<longrightarrow> err = Some e)
          \<and> (e1 \<noteq> None \<or> n1 < length (top_buf ks p) \<longrightarrow>
                n = n1 \<and> err = (case e1 of Some e \<Rightarrow> Some e | None \<Rightarrow> Some ErrShortWrite)
                \<and> p' = p \<and> file' = file1)
          \<and> (e1 = None \<and> n1 = length (top_buf ks p) \<and> w p = [] \<longrightarrow>
                n = n1 \<and> err = None \<and> p' = p \<and> file' = file1)
          \<and> (e1 = None \<and> n1 = length (top_buf ks p) \<and> w p \<noteq> [] \<longrightarrow>
                (case Write file1 (w p) of (n2, e2, file2) \<Rightarrow>
                   n = n1 + n2 \<and> file' = file2 \<and> p' = p\<lparr>w := drop n2 (w p)\<rparr>
                   \<and> err = (case e2 of Some e \<Rightarrow> Some e
                            | None \<Rightarrow> if n2 < length (w p) then Some ErrShortWrite else None))))"
proof -
  obtain n1 e1 file1 where w1: "Write file (top_buf ks p) = (n1, e1, file1)"
    by (cases "Write file (top_buf ks p)") auto
  obtain n2 e2 file2 where w2: "Write file1 (w p) = (n2, e2, file2)"
    by (cases "Write file1 (w p)") auto
  from honest_Write [OF assms w1] have n1: "n1 \<le> length (top_buf ks p)" by simp
  from honest_Write [OF assms w2] have n2: "n2 \<le> length (w p)" by simp
  from WriteTo_written [OF assms, of ks p "file"] obtain n err p' file' where
    res: "WriteTo Write ks p file = Inr (n, err, p', file')"
    and wr: "written file' = written file @ take n (top_buf ks p @ w p)"
    and le: "n \<le> length (top_buf ks p) + length (w p)"
    and full: "err = None \<longrightarrow> n = length (top_buf ks p) + length (w p)"
    by blast
  note exact = WriteTo_exact [OF assms, where ks = ks and p = p and ?file = "file"]
  consider (header) "e1 \<noteq> None \<or> n1 < length (top_buf ks p)"
    | (empty) "e1 = None" "n1 = length (top_buf ks p)" "w p = []"
    | (content) "e1 = None" "n1 = length (top_buf ks p)" "w p \<noteq> []"
    using n1 by fastforce
  then have "(err = None \<longleftrightarrow>
             e1 = None \<and> n1 = length (top_buf ks p) \<and> (w p = [] \<or> e2 = None \<and> n2 = length (w p)))
          \<and> (\<forall>e. e1 = Some e \<longrightarrow> err = Some e)
          \<and> (e1 \<noteq> None \<or> n1 < length (top_buf ks p) \<longrightarrow>
                n = n1 \<and> err = (case e1 of Some e \<Rightarrow> Some e | None \<Rightarrow> Some ErrShortWrite)
                \<and> p' = p \<and> file' = file1)
          \<and> (e1 = None \<and> n1 = length (top_buf ks p) \<and> w p = [] \<longrightarrow>
                n = n1 \<and> err = None \<and> p' = p \<and> file' = file1)
          \<and> (e1 = None \<and> n1 = length (top_buf ks p) \<and> w p \<noteq> [] \<longrightarrow>
                n = n1 + n2 \<and> file' = file2 \<and> p' = p\<lparr>w := drop n2 (w p)\<rparr>
                \<and> err = (case e2 of Some e \<Rightarrow> Some e
                         | None \<Rightarrow> if n2 < length (w p) then Some ErrShortWrite else None))"
  proof cases
    case header
    with exact w1 res have "n = n1" "p' = p" "file' = file1"
      "err = (case e1 of Some e \<Rightarrow> Some e | None \<Rightarrow> Some ErrShortWrite)"
      by simp_all
    with header show ?thesis by (cases e1) auto
  next
    case empty
    with exact w1 res have "n = n1" "p' = p" "file' = file1" "err = None" by simp_all
    with empty show ?thesis by simp
  next
    case content
    with exact w1 w2 res have "n = n1 + n2" "p' = p\<lparr>w := drop n2 (w p)\<rparr>" "file' = file2"
      "err = (case e2 of Some e \<Rightarrow> Some e
              | None \<Rightarrow> if n2 < length (w p) then Some ErrShortWrite else None)"
      by simp_all
    with content n2 show ?thesis by (cases e2) auto
  qed
  with res wr le full w1 w2 show ?thesis by simp
qed

theorem WriteTo_count_and_first_error_witness:
  "honest Write_closed id \<and> honest Write_buffer id
   \<and> WriteTo Write_closed [] ((newPrinter ''main'')\<lparr>w := ''x''\<rparr>) []
       = Inr (0, Some (WriteError ''file already closed''), (newPrinter ''main'')\<lparr>w := ''x''\<rparr>, [])
   \<and> WriteTo Write_buffer [] ((newPrinter ''main'')\<lparr>w := ''x''\<rparr>) []
       = Inr (length (top_buf [] (newPrinter ''main'')) + 1, None, newPrinter ''main'',
              top_buf [] (newPrinter ''main'') @ ''x'')
   \<and> WriteTo Write_buffer [] (newPrinter ''main'') []
       = Inr (length (top_buf [] (newPrinter ''main'')), None, newPrinter ''main'',
              top_buf [] (newPrinter ''main''))"
  using WriteTo_count_and_first_error [OF honest_closed, of "[]" "(newPrinter ''main'')\<lparr>w := ''x''\<rparr>" "[]"]
    WriteTo_count_and_first_error [OF honest_buffer, of "[]" "(newPrinter ''main'')\<lparr>w := ''x''\<rparr>" "[]"]
    WriteTo_count_and_first_error [OF honest_buffer, of "[]" "newPrinter ''main''" "[]"]
    honest_closed honest_buffer
  by (simp add: WriteTo_def Buffer_WriteTo_def top_buf_def newPrinter_def Write_closed_def Write_buffer_def)

text \<open>
  C10.  After a \<open>WriteTo\<close> that returned no error the content buffer is empty
  and nothing else of the printer has changed.  A second \<open>WriteTo\<close> writes the
  same header block again and no content: into an empty buffer it writes
  exactly the header block, and into any writer that keeps its promise it
  writes a prefix of it.
\<close>

theorem WriteTo_consumes_content:
  assumes "WriteTo Write ks p file = Inr (n, None, p', file')"
  shows "w p' = [] \<and> p' = p\<lparr>w := []\<rparr> \<and> n = length (top_buf ks p) + length (w p)
     \<and> top_buf ks2 p' = top_buf ks2 p
     \<and> WriteTo Write_buffer ks2 p' [] = Inr (length (top_buf ks2 p), None, p', top_buf ks2 p)
     \<and> (honest Write2 written2 \<longrightarrow>
          (\<exists>n2 err2 file2'. WriteTo Write2 ks2 p' file2 = Inr (n2, err2, p', file2')
             \<and> n2 \<le> length (top_buf ks2 p)
             \<and> written2 file2' = written2 file2 @ take n2 (top_buf ks2 p)))"
proof -
  from assms obtain n1 b1 file1 n2 b2 where
    b1: "Buffer_WriteTo Write (top_buf ks p) file = Inr (n1, None, b1, file1)"
    and b2: "Buffer_WriteTo Write (w p) file1 = Inr (n2, None, b2, file')"
    and p': "p' = p\<lparr>w := b2\<rparr>" and n: "n = n1 + n2"
    by (auto simp: WriteTo_def split: sum.splits option.splits)
  from Buffer_WriteTo_success [OF b1] Buffer_WriteTo_success [OF b2] p' n
  have p'': "p' = p\<lparr>w := []\<rparr>" and len: "n = length (top_buf ks p) + length (w p)" by simp_all
  have t: "top_buf ks2 p' = top_buf ks2 p" by (simp add: p'' top_buf_def)
  have buf: "WriteTo Write_buffer ks2 p' [] = Inr (length (top_buf ks2 p), None, p', top_buf ks2 p)"
    using top_buf_not_Nil [of ks2 p]
    by (simp add: p'' WriteTo_empty_content Buffer_WriteTo_def Write_buffer_def)
  have hon: "\<exists>n2 err2 file2'. WriteTo Write2 ks2 p' file2 = Inr (n2, err2, p', file2')
             \<and> n2 \<le> length (top_buf ks2 p)
             \<and> written2 file2' = written2 file2 @ take n2 (top_buf ks2 p)"
    if "honest Write2 written2"
  proof -
    from Buffer_WriteTo_honest [OF that, of "top_buf ks2 p" file2] obtain n2 err2 b' s' where
      "Buffer_WriteTo Write2 (top_buf ks2 p) file2 = Inr (n2, err2, b', s')"
      "n2 \<le> length (top_buf ks2 p)" "written2 s' = written2 file2 @ take n2 (top_buf ks2 p)"
      by blast
    then show ?thesis by (simp add: p'' WriteTo_empty_content)
  qed
  from p'' len t buf hon show ?thesis by simp
qed

theorem WriteTo_consumes_content_witness:
  "WriteTo Write_buffer [] ((newPrinter ''main'')\<lparr>w := ''x''\<rparr>) []
       = Inr (length (top_buf [] (newPrinter ''main'')) + 1, None, newPrinter ''main'',
              top_buf [] (newPrinter ''main'') @ ''x'')
   \<and> w (newPrinter ''main'') = []
   \<and> WriteTo Write_buffer [] (newPrinter ''main'') []
       = Inr (length (top_buf [] ((newPrinter ''main'')\<lparr>w := ''x''\<rparr>)), None, newPrinter ''main'',
              top_buf [] ((newPrinter ''main'')\<lparr>w := ''x''\<rparr>))
   \<and> top_buf [] ((newPrinter ''main'')\<lparr>w := ''x''\<rparr>)
       = ''// Code generated by goderive DO NOT EDIT.\<newline>\<newline>package main\<newline>''"
proof -
  have a: "WriteTo Write_buffer [] ((newPrinter ''main'')\<lparr>w := ''x''\<rparr>) []
       = Inr (length (top_buf [] (newPrinter ''main'')) + 1, None, newPrinter ''main'',
              top_buf [] (newPrinter ''main'') @ ''x'')"
    by (simp add: WriteTo_def Buffer_WriteTo_def top_buf_def newPrinter_def Write_buffer_def)
  have t: "top_buf [] ((newPrinter ''main'')\<lparr>w := ''x''\<rparr>)
       = ''// Code generated by goderive DO NOT EDIT.\<newline>\<newline>package main\<newline>''"
    by (simp add: top_buf_def newPrinter_def)
  from WriteTo_consumes_content [OF a, where ?ks2.0 = "[]" and ?Write2.0 = Write_buffer
      and ?written2.0 = id and ?file2.0 = "[]"] a t
  show ?thesis by simp
qed

end
